theory Spec2Isabelle
  imports Main
begin

section \<open>The router of hysem/light (router.go) over an explicit Go heap\<close>

text \<open>
  A \<^verbatim>\<open>Router\<close> value is a pointer \<^verbatim>\<open>*routerContext\<close>; several contexts point to one
  \<^verbatim>\<open>*http.ServeMux\<close>, and each context holds a slice of middlewares, which is a view of a
  backing array. All three kinds of object live in a store, addressed by their index:
  allocation appends to the store, so the address \<open>length store\<close> is always unused.
\<close>

type_synonym addr = nat

text \<open>
  A value of the Go type \<^verbatim>\<open>func(http.Handler) http.Handler\<close>: \<open>None\<close> is the nil func,
  \<open>Some f\<close> a function from handlers to handlers. Handlers are values of any type \<open>'h\<close>
  (\<^verbatim>\<open>http.HandlerFunc\<close> implements \<^verbatim>\<open>http.Handler\<close>, so both are handlers here).
\<close>

type_synonym 'h middleware = "('h \<Rightarrow> 'h) option"

text \<open>
  The panics: a method called on a nil pointer, a call of a nil func, an index out of range,
  a panic inside \<^verbatim>\<open>(*ServeMux).Handle\<close>, and a panic that a callback raises itself.
\<close>

datatype panic = NilPointer | NilFunc | IndexOutOfRange | ServeMuxPanic | CallbackPanic

text \<open>
  A slice header: the backing array (\<open>None\<close> for the nil slice) and the length. No slice
  expression occurs in router.go, so every slice starts at offset 0 of its array and its
  capacity is the length of that array (\<open>cap\<close> below).
\<close>

record slice =
  array :: "addr option"
  len :: nat

text \<open>
  \<^verbatim>\<open>type routerContext struct { pattern string; *http.ServeMux; middlewares []func... }\<close>.
  The embedded pointer is the address of the mux; an address outside the store is a nil
  pointer (\<open>deref\<close> below).
\<close>

record routerContext =
  pattern :: string
  ServeMux :: addr
  middlewares :: slice

record ('h, 'm) heap =
  contexts :: "routerContext list"
  arrays :: "'h middleware list list"
  muxes :: "'m list"

text \<open>
  What router.go takes from outside the repository: the standard library's
  \<^verbatim>\<open>http.NewServeMux\<close> and \<^verbatim>\<open>(*ServeMux).Handle\<close> over any type \<open>'m\<close> of mux states
  (\<open>None\<close> when \<^verbatim>\<open>Handle\<close> panics: invalid or conflicting pattern, nil handler), and the
  capacity the Go runtime picks when \<^verbatim>\<open>append\<close> has to allocate, from the old capacity and
  the needed length.
\<close>

record ('h, 'm) runtime =
  NewServeMux :: 'm
  Handle :: "'m \<Rightarrow> string \<Rightarrow> 'h \<Rightarrow> 'm option"
  growslice :: "nat \<Rightarrow> nat \<Rightarrow> nat"

definition empty_heap :: "('h, 'm) heap" where
  "empty_heap = \<lparr>contexts = [], arrays = [], muxes = []\<rparr>"

definition deref :: "'a list \<Rightarrow> addr \<Rightarrow> 'a option" where
  "deref store a = (if a < length store then Some (store ! a) else None)"

definition nil :: slice where
  "nil = \<lparr>array = None, len = 0\<rparr>"

definition cells :: "('h, 'm) heap \<Rightarrow> slice \<Rightarrow> 'h middleware list" where
  "cells s sl = (case array sl of None \<Rightarrow> []
                 | Some a \<Rightarrow> (case deref (arrays s) a of None \<Rightarrow> [] | Some cs \<Rightarrow> cs))"

definition cap :: "('h, 'm) heap \<Rightarrow> slice \<Rightarrow> nat" where
  "cap s sl = length (cells s sl)"

text \<open>The elements \<^verbatim>\<open>sl[0], ..., sl[len(sl)-1]\<close>, as \<^verbatim>\<open>sl...\<close> passes them.\<close>

definition elems :: "('h, 'm) heap \<Rightarrow> slice \<Rightarrow> 'h middleware list" where
  "elems s sl = take (len sl) (cells s sl)"

text \<open>
  The builtin \<^verbatim>\<open>append(sl, xs...)\<close>: when the result fits the capacity, the new elements
  are written into the backing array behind the old ones and the result shares the array;
  otherwise a new array is allocated, of a capacity of at least the needed length, the old
  elements are copied and the rest of the array is zeroed (nil funcs).
\<close>

definition append_go ::
  "('h, 'm) runtime \<Rightarrow> slice \<Rightarrow> 'h middleware list \<Rightarrow> ('h, 'm) heap \<Rightarrow> slice \<times> ('h, 'm) heap" where
  "append_go rt sl xs s =
     (let n = len sl + length xs in
      if n \<le> cap s sl then
        (case array sl of
           None \<Rightarrow> (sl, s)
         | Some a \<Rightarrow>
             (sl\<lparr>len := n\<rparr>,
              s\<lparr>arrays := (arrays s)[a := take (len sl) (cells s sl) @ xs @ drop n (cells s sl)]\<rparr>))
      else
        (let c = max n (growslice rt (cap s sl) n) in
         (\<lparr>array = Some (length (arrays s)), len = n\<rparr>,
          s\<lparr>arrays := arrays s @ [elems s sl @ xs @ replicate (c - n) None]\<rparr>)))"

text \<open>Reading and assigning the field \<^verbatim>\<open>r.middlewares\<close> of an allocated context.\<close>

definition get_middlewares :: "('h, 'm) heap \<Rightarrow> addr \<Rightarrow> slice" where
  "get_middlewares s r = middlewares (contexts s ! r)"

definition set_middlewares :: "addr \<Rightarrow> slice \<Rightarrow> ('h, 'm) heap \<Rightarrow> ('h, 'm) heap" where
  "set_middlewares r sl s = s\<lparr>contexts := (contexts s)[r := (contexts s ! r)\<lparr>middlewares := sl\<rparr>]\<rparr>"

text \<open>\<^verbatim>\<open>&routerContext{ServeMux: mux, pattern: p}\<close>: the new context's address and the heap.\<close>

definition new_routerContext ::
  "addr \<Rightarrow> string \<Rightarrow> ('h, 'm) heap \<Rightarrow> addr \<times> ('h, 'm) heap" where
  "new_routerContext mux p s =
     (length (contexts s),
      s\<lparr>contexts := contexts s @ [\<lparr>pattern = p, ServeMux = mux, middlewares = nil\<rparr>]\<rparr>)"

definition NewRouter :: "('h, 'm) runtime \<Rightarrow> ('h, 'm) heap \<Rightarrow> addr \<times> ('h, 'm) heap" where
  "NewRouter rt s =
     (let mux = length (muxes s);
          s1 = s\<lparr>muxes := muxes s @ [NewServeMux rt]\<rparr>
      in new_routerContext mux [] s1)"

definition Use ::
  "('h, 'm) runtime \<Rightarrow> addr \<Rightarrow> 'h middleware list \<Rightarrow> ('h, 'm) heap \<Rightarrow> panic + ('h, 'm) heap" where
  "Use rt r mws s =
     (case deref (contexts s) r of
        None \<Rightarrow> Inl NilPointer
      | Some c \<Rightarrow>
          (let (sl, s1) = append_go rt (middlewares c) mws s
           in Inr (set_middlewares r sl s1)))"

definition With ::
  "('h, 'm) runtime \<Rightarrow> addr \<Rightarrow> 'h middleware list \<Rightarrow> ('h, 'm) heap
     \<Rightarrow> panic + (addr \<times> ('h, 'm) heap)" where
  "With rt r mws s =
     (case deref (contexts s) r of
        None \<Rightarrow> Inl NilPointer
      | Some c \<Rightarrow>
          (let (nr, s1) = new_routerContext (ServeMux c) (pattern c) s;
               (sl2, s2) = append_go rt (get_middlewares s1 nr) (elems s1 (get_middlewares s1 r)) s1;
               s3 = set_middlewares nr sl2 s2;
               (sl4, s4) = append_go rt (get_middlewares s3 nr) mws s3;
               s5 = set_middlewares nr sl4 s4
           in Inr (nr, s5)))"

text \<open>
  The callback \<open>fn\<close> of \<open>Group\<close> and \<open>Route\<close> is a Go func value: \<open>None\<close> is the nil
  func, \<open>Some f\<close> a function that gets the new context and the heap, and returns the heap
  it leaves or panics.
\<close>

definition Group ::
  "('h, 'm) runtime \<Rightarrow> addr \<Rightarrow> (addr \<Rightarrow> ('h, 'm) heap \<Rightarrow> panic + ('h, 'm) heap) option \<Rightarrow> ('h, 'm) heap
     \<Rightarrow> panic + (addr \<times> ('h, 'm) heap)" where
  "Group rt r fn s =
     (case deref (contexts s) r of
        None \<Rightarrow> Inl NilPointer
      | Some c \<Rightarrow>
          (let (nr, s1) = new_routerContext (ServeMux c) (pattern c) s;
               (sl2, s2) = append_go rt (get_middlewares s1 nr) (elems s1 (get_middlewares s1 r)) s1;
               s3 = set_middlewares nr sl2 s2
           in case fn of
                None \<Rightarrow> Inl NilFunc
              | Some f \<Rightarrow>
                  (case f nr s3 of
                     Inl e \<Rightarrow> Inl e
                   | Inr s4 \<Rightarrow> Inr (nr, s4))))"

definition Route ::
  "('h, 'm) runtime \<Rightarrow> addr \<Rightarrow> string \<Rightarrow> (addr \<Rightarrow> ('h, 'm) heap \<Rightarrow> panic + ('h, 'm) heap) option
     \<Rightarrow> ('h, 'm) heap \<Rightarrow> panic + (addr \<times> ('h, 'm) heap)" where
  "Route rt r pat fn s =
     (case deref (contexts s) r of
        None \<Rightarrow> Inl NilPointer
      | Some c \<Rightarrow>
          (let (nr, s1) = new_routerContext (ServeMux c) (pattern c @ pat) s;
               (sl2, s2) = append_go rt (get_middlewares s1 nr) (elems s1 (get_middlewares s1 r)) s1;
               s3 = set_middlewares nr sl2 s2
           in case fn of
                None \<Rightarrow> Inl NilFunc
              | Some f \<Rightarrow>
                  (case f nr s3 of
                     Inl e \<Rightarrow> Inl e
                   | Inr s4 \<Rightarrow> Inr (nr, s4))))"

text \<open>
  The loop of \<^verbatim>\<open>Method\<close>: \<^verbatim>\<open>for i := len(r.middlewares) - 1; i >= 0; i-- { h = r.middlewares[i](h) }\<close>.
  The counter is \<open>i + 1\<close>; \<open>ms\<close> are the slice's elements. Calling a nil func panics.
\<close>

fun Method_loop :: "'h middleware list \<Rightarrow> nat \<Rightarrow> 'h \<Rightarrow> panic + 'h" where
  "Method_loop ms 0 h = Inr h"
| "Method_loop ms (Suc i) h =
     (case deref ms i of
        None \<Rightarrow> Inl IndexOutOfRange
      | Some None \<Rightarrow> Inl NilFunc
      | Some (Some m) \<Rightarrow> Method_loop ms i (m h))"

definition Method ::
  "('h, 'm) runtime \<Rightarrow> addr \<Rightarrow> string \<Rightarrow> string \<Rightarrow> 'h \<Rightarrow> ('h, 'm) heap \<Rightarrow> panic + ('h, 'm) heap" where
  "Method rt r method pat h s =
     (case deref (contexts s) r of
        None \<Rightarrow> Inl NilPointer
      | Some c \<Rightarrow>
          (case Method_loop (elems s (middlewares c)) (len (middlewares c)) h of
             Inl e \<Rightarrow> Inl e
           | Inr h' \<Rightarrow>
               (let method' = (if method \<noteq> [] then method @ '' '' else method) in
                case deref (muxes s) (ServeMux c) of
                  None \<Rightarrow> Inl NilPointer
                | Some mux \<Rightarrow>
                    (case Handle rt mux (method' @ pattern c @ pat) h' of
                       None \<Rightarrow> Inl ServeMuxPanic
                     | Some mux' \<Rightarrow> Inr (s\<lparr>muxes := (muxes s)[ServeMux c := mux']\<rparr>)))))"

definition MethodFunc ::
  "('h, 'm) runtime \<Rightarrow> addr \<Rightarrow> string \<Rightarrow> string \<Rightarrow> 'h \<Rightarrow> ('h, 'm) heap \<Rightarrow> panic + ('h, 'm) heap" where
  "MethodFunc rt r method pat h s = Method rt r method pat h s"

text \<open>The method names of net/http.\<close>

definition MethodConnect :: string where "MethodConnect = ''CONNECT''"
definition MethodDelete :: string where "MethodDelete = ''DELETE''"
definition MethodGet :: string where "MethodGet = ''GET''"
definition MethodHead :: string where "MethodHead = ''HEAD''"
definition MethodOptions :: string where "MethodOptions = ''OPTIONS''"
definition MethodPatch :: string where "MethodPatch = ''PATCH''"
definition MethodPost :: string where "MethodPost = ''POST''"
definition MethodPut :: string where "MethodPut = ''PUT''"
definition MethodTrace :: string where "MethodTrace = ''TRACE''"

definition Connect ::
  "('h, 'm) runtime \<Rightarrow> addr \<Rightarrow> string \<Rightarrow> 'h \<Rightarrow> ('h, 'm) heap \<Rightarrow> panic + ('h, 'm) heap" where
  "Connect rt r pat h s = MethodFunc rt r MethodConnect pat h s"

definition Delete ::
  "('h, 'm) runtime \<Rightarrow> addr \<Rightarrow> string \<Rightarrow> 'h \<Rightarrow> ('h, 'm) heap \<Rightarrow> panic + ('h, 'm) heap" where
  "Delete rt r pat h s = MethodFunc rt r MethodDelete pat h s"

definition Get ::
  "('h, 'm) runtime \<Rightarrow> addr \<Rightarrow> string \<Rightarrow> 'h \<Rightarrow> ('h, 'm) heap \<Rightarrow> panic + ('h, 'm) heap" where
  "Get rt r pat h s = MethodFunc rt r MethodGet pat h s"

definition Head ::
  "('h, 'm) runtime \<Rightarrow> addr \<Rightarrow> string \<Rightarrow> 'h \<Rightarrow> ('h, 'm) heap \<Rightarrow> panic + ('h, 'm) heap" where
  "Head rt r pat h s = MethodFunc rt r MethodHead pat h s"

definition Options ::
  "('h, 'm) runtime \<Rightarrow> addr \<Rightarrow> string \<Rightarrow> 'h \<Rightarrow> ('h, 'm) heap \<Rightarrow> panic + ('h, 'm) heap" where
  "Options rt r pat h s = MethodFunc rt r MethodOptions pat h s"

definition Patch ::
  "('h, 'm) runtime \<Rightarrow> addr \<Rightarrow> string \<Rightarrow> 'h \<Rightarrow> ('h, 'm) heap \<Rightarrow> panic + ('h, 'm) heap" where
  "Patch rt r pat h s = MethodFunc rt r MethodPatch pat h s"

definition Post ::
  "('h, 'm) runtime \<Rightarrow> addr \<Rightarrow> string \<Rightarrow> 'h \<Rightarrow> ('h, 'm) heap \<Rightarrow> panic + ('h, 'm) heap" where
  "Post rt r pat h s = MethodFunc rt r MethodPost pat h s"

definition Put ::
  "('h, 'm) runtime \<Rightarrow> addr \<Rightarrow> string \<Rightarrow> 'h \<Rightarrow> ('h, 'm) heap \<Rightarrow> panic + ('h, 'm) heap" where
  "Put rt r pat h s = MethodFunc rt r MethodPut pat h s"

definition Trace ::
  "('h, 'm) runtime \<Rightarrow> addr \<Rightarrow> string \<Rightarrow> 'h \<Rightarrow> ('h, 'm) heap \<Rightarrow> panic + ('h, 'm) heap" where
  "Trace rt r pat h s = MethodFunc rt r MethodTrace pat h s"

section \<open>Observations, well-formed heaps and call sequences\<close>

text \<open>The middleware chain of the context at \<open>r\<close>: the elements of \<^verbatim>\<open>r.middlewares\<close>, in order.\<close>

definition chain_of :: "('h, 'm) heap \<Rightarrow> addr \<Rightarrow> 'h middleware list" where
  "chain_of s r = (case deref (contexts s) r of None \<Rightarrow> [] | Some c \<Rightarrow> elems s (middlewares c))"

text \<open>
  A slice header of a Go heap: the nil slice has length 0; any other slice points to an
  allocated array and is no longer than it.
\<close>

definition slice_ok :: "('h, 'm) heap \<Rightarrow> slice \<Rightarrow> bool" where
  "slice_ok s sl =
     (case array sl of
        None \<Rightarrow> len sl = 0
      | Some a \<Rightarrow> a < length (arrays s) \<and> len sl \<le> length (arrays s ! a))"

text \<open>
  The invariant of the heaps that router.go builds: every context's slice is a slice of the
  heap, and no two contexts share a backing array. It holds of the empty heap and every
  function of router.go keeps it (lemma \<open>do_calls_props\<close> below).
\<close>

definition heap_inv :: "('h, 'm) heap \<Rightarrow> bool" where
  "heap_inv s =
     ((\<forall>r < length (contexts s). slice_ok s (middlewares (contexts s ! r))) \<and>
      (\<forall>r < length (contexts s). \<forall>r' < length (contexts s).
         r \<noteq> r' \<longrightarrow> array (middlewares (contexts s ! r)) \<noteq> None \<longrightarrow>
         array (middlewares (contexts s ! r)) \<noteq> array (middlewares (contexts s ! r'))))"

text \<open>The spec's nested handler \<open>m1(m2(...mn(h)...))\<close> for the chain \<open>m1, ..., mn\<close>.\<close>

fun nested :: "('h \<Rightarrow> 'h) list \<Rightarrow> 'h \<Rightarrow> 'h" where
  "nested [] h = h"
| "nested (m # ms) h = m (nested ms h)"

text \<open>
  The spec's "install the handler into the shared match table under that key": one call of
  \<^verbatim>\<open>Handle\<close> on the mux at address \<open>a\<close>, and nothing else changes.
\<close>

definition install ::
  "('h, 'm) runtime \<Rightarrow> ('h, 'm) heap \<Rightarrow> addr \<Rightarrow> string \<Rightarrow> 'h \<Rightarrow> panic + ('h, 'm) heap" where
  "install rt s a key h =
     (case deref (muxes s) a of
        None \<Rightarrow> Inl NilPointer
      | Some mux \<Rightarrow>
          (case Handle rt mux key h of
             None \<Rightarrow> Inl ServeMuxPanic
           | Some mux' \<Rightarrow> Inr (s\<lparr>muxes := (muxes s)[a := mux']\<rparr>)))"

text \<open>
  A configuration program is a sequence of calls of the router's functions. What a callback
  of \<^verbatim>\<open>Group\<close> or \<^verbatim>\<open>Route\<close> does is a sequence of calls too, so the callback of a
  \<open>GroupCall\<close> or \<open>RouteCall\<close> returns at once and its calls follow in the sequence.
\<close>

datatype 'h call =
    NewRouterCall
  | UseCall addr "'h middleware list"
  | WithCall addr "'h middleware list"
  | GroupCall addr
  | RouteCall addr string
  | MethodCall addr string string 'h

fun do_call :: "('h, 'm) runtime \<Rightarrow> 'h call \<Rightarrow> ('h, 'm) heap \<Rightarrow> panic + ('h, 'm) heap" where
  "do_call rt NewRouterCall s = Inr (snd (NewRouter rt s))"
| "do_call rt (UseCall r ms) s = Use rt r ms s"
| "do_call rt (WithCall r ms) s =
     (case With rt r ms s of Inl e \<Rightarrow> Inl e | Inr (nr, t) \<Rightarrow> Inr t)"
| "do_call rt (GroupCall r) s =
     (case Group rt r (Some (\<lambda>_ t. Inr t)) s of Inl e \<Rightarrow> Inl e | Inr (nr, t) \<Rightarrow> Inr t)"
| "do_call rt (RouteCall r pat) s =
     (case Route rt r pat (Some (\<lambda>_ t. Inr t)) s of Inl e \<Rightarrow> Inl e | Inr (nr, t) \<Rightarrow> Inr t)"
| "do_call rt (MethodCall r method pat h) s = Method rt r method pat h s"

fun do_calls :: "('h, 'm) runtime \<Rightarrow> 'h call list \<Rightarrow> ('h, 'm) heap \<Rightarrow> panic + ('h, 'm) heap" where
  "do_calls rt [] s = Inr s"
| "do_calls rt (c # cs) s = (case do_call rt c s of Inl e \<Rightarrow> Inl e | Inr t \<Rightarrow> do_calls rt cs t)"

text \<open>The middlewares that a call, or a sequence of calls, passes to \<^verbatim>\<open>Use\<close> on the context \<open>q\<close>.\<close>

fun used :: "addr \<Rightarrow> 'h call \<Rightarrow> 'h middleware list" where
  "used q (UseCall r ms) = (if r = q then ms else [])"
| "used q _ = []"

definition appended :: "addr \<Rightarrow> 'h call list \<Rightarrow> 'h middleware list" where
  "appended q cs = concat (map (used q) cs)"

text \<open>
  A concrete runtime and heap for the examples: handlers are lists of numbers, a middleware
  \<open>(#) k\<close> puts its number in front, the mux is the list of its registrations, and the
  heap holds one router whose two middlewares lie in an array of capacity three.
\<close>

definition test_rt :: "(nat list, (string \<times> nat list) list) runtime" where
  "test_rt = \<lparr>NewServeMux = [], Handle = (\<lambda>mux key h. Some (mux @ [(key, h)])),
              growslice = (\<lambda>c n. 2 * c)\<rparr>"

definition test_ctx :: routerContext where
  "test_ctx = \<lparr>pattern = ''/api'', ServeMux = 0, middlewares = \<lparr>array = Some 0, len = 2\<rparr>\<rparr>"

definition test_heap :: "(nat list, (string \<times> nat list) list) heap" where
  "test_heap = \<lparr>contexts = [test_ctx], arrays = [[Some ((#) 1), Some ((#) 2), None]], muxes = [[]]\<rparr>"

definition root_heap :: "(nat list, (string \<times> nat list) list) heap" where
  "root_heap = snd (NewRouter test_rt empty_heap)"

section \<open>The builtin append, \<open>Use\<close> and the derivation of a context\<close>

text \<open>
  \<open>append_go\<close> returns the old elements followed by the new ones in a slice of the heap,
  and leaves every slice of another array as it was. So \<open>Use\<close> keeps the invariant and
  changes one chain; and the derivation that \<open>With\<close>, \<open>Group\<close> and \<open>Route\<close> share
  (\<open>Route\<close> with a callback that returns at once) copies the chain into an array of its own.
\<close>

lemma slice_ok_cells:
  "slice_ok s sl \<Longrightarrow> len sl \<le> length (cells s sl)"
  by (auto simp: slice_ok_def cells_def deref_def split: option.splits)

lemma append_go_frame:
  assumes "append_go rt sl xs s = (sl', s')"
  shows "contexts s' = contexts s" and "muxes s' = muxes s"
    and "length (arrays s) \<le> length (arrays s')"
  using assms
  by (auto simp: append_go_def Let_def split: if_splits option.splits)

lemma append_go_elems:
  assumes "slice_ok s sl" and "append_go rt sl xs s = (sl', s')"
  shows "elems s' sl' = elems s sl @ xs"
  using assms slice_ok_cells[OF assms(1)]
  by (auto simp: append_go_def Let_def elems_def cells_def cap_def deref_def slice_ok_def nth_append
           split: if_splits option.splits)

lemma append_go_ok:
  assumes "slice_ok s sl" and "append_go rt sl xs s = (sl', s')"
  shows "slice_ok s' sl'"
  using assms slice_ok_cells[OF assms(1)]
  by (auto simp: append_go_def Let_def elems_def cells_def cap_def deref_def slice_ok_def nth_append
           split: if_splits option.splits)

lemma append_go_array:
  assumes "append_go rt sl xs s = (sl', s')"
  shows "array sl' = array sl \<or> array sl' = Some (length (arrays s))"
  using assms
  by (auto simp: append_go_def Let_def split: if_splits option.splits)

lemma append_go_other:
  assumes "append_go rt sl xs s = (sl', s')" and "slice_ok s sl2"
    and "array sl2 \<noteq> array sl \<or> array sl2 = None"
  shows "elems s' sl2 = elems s sl2" and "slice_ok s' sl2"
    and "array sl2 \<noteq> None \<longrightarrow> array sl2 \<noteq> array sl'"
  using assms
  by (auto simp: append_go_def Let_def elems_def cells_def cap_def deref_def slice_ok_def nth_append
           split: if_splits option.splits)


lemma elems_arrays: "arrays s = arrays t \<Longrightarrow> elems s sl = elems t sl"
  by (simp add: elems_def cells_def split: option.splits)

lemma slice_ok_arrays: "arrays s = arrays t \<Longrightarrow> slice_ok s sl = slice_ok t sl"
  by (simp add: slice_ok_def split: option.splits)

lemma set_middlewares_simps:
  "arrays (set_middlewares r sl s) = arrays s"
  "muxes (set_middlewares r sl s) = muxes s"
  "length (contexts (set_middlewares r sl s)) = length (contexts s)"
  "r < length (contexts s) \<Longrightarrow> contexts (set_middlewares r sl s) ! r = (contexts s ! r)\<lparr>middlewares := sl\<rparr>"
  "r' \<noteq> r \<Longrightarrow> contexts (set_middlewares r sl s) ! r' = contexts s ! r'"
  by (simp_all add: set_middlewares_def)

lemma Use_unfold:
  assumes "deref (contexts s) r = Some c" and "append_go rt (middlewares c) mws s = (sl, s1)"
  shows "Use rt r mws s = Inr (set_middlewares r sl s1)"
  using assms by (simp add: Use_def)

lemma Use_props:
  assumes inv: "heap_inv s" and r: "deref (contexts s) r = Some c"
  shows "\<exists>s'. Use rt r mws s = Inr s' \<and> chain_of s' r = chain_of s r @ mws \<and>
           muxes s' = muxes s \<and> length (contexts s') = length (contexts s) \<and>
           pattern (contexts s' ! r) = pattern c \<and> ServeMux (contexts s' ! r) = ServeMux c \<and>
           (\<forall>r'. r' \<noteq> r \<longrightarrow> contexts s' ! r' = contexts s ! r' \<and> chain_of s' r' = chain_of s r') \<and>
           heap_inv s'"
proof -
  obtain sl s1 where app: "append_go rt (middlewares c) mws s = (sl, s1)"
    by (cases "append_go rt (middlewares c) mws s")
  let ?s' = "set_middlewares r sl s1"
  from r have rlt: "r < length (contexts s)" and c: "c = contexts s ! r"
    by (auto simp: deref_def split: if_splits)
  from inv rlt c have ok: "slice_ok s (middlewares c)"
    by (simp add: heap_inv_def)
  note fr = append_go_frame[OF app]
  have use: "Use rt r mws s = Inr ?s'" by (rule Use_unfold[OF r app])
  have own: "chain_of ?s' r = chain_of s r @ mws"
    using rlt c append_go_elems[OF ok app] fr elems_arrays[of ?s' s1 sl]
    by (simp add: chain_of_def deref_def set_middlewares_simps)
  have other: "chain_of ?s' r' = chain_of s r'" "contexts ?s' ! r' = contexts s ! r'"
    "r' < length (contexts s) \<Longrightarrow> slice_ok ?s' (middlewares (contexts ?s' ! r'))"
    "r' < length (contexts s) \<Longrightarrow> array (middlewares (contexts s ! r')) \<noteq> None \<Longrightarrow>
       array (middlewares (contexts s ! r')) \<noteq> array sl"
    if ne: "r' \<noteq> r" for r'
  proof -
    show eq: "contexts ?s' ! r' = contexts s ! r'"
      using ne fr by (simp add: set_middlewares_simps)
    show "chain_of ?s' r' = chain_of s r'"
    proof (cases "r' < length (contexts s)")
      case True
      with inv have ok2: "slice_ok s (middlewares (contexts s ! r'))"
        by (simp add: heap_inv_def)
      from inv True rlt ne c
      have d: "array (middlewares (contexts s ! r')) \<noteq> array (middlewares c) \<or>
               array (middlewares (contexts s ! r')) = None"
        unfolding heap_inv_def by blast
      from append_go_other(1)[OF app ok2 d] True eq fr elems_arrays[of ?s' s1]
      show ?thesis
        by (simp add: chain_of_def deref_def set_middlewares_simps)
    next
      case False
      then show ?thesis using fr
        by (simp add: chain_of_def deref_def set_middlewares_simps)
    qed
    {
      assume lt: "r' < length (contexts s)"
      with inv have ok2: "slice_ok s (middlewares (contexts s ! r'))"
        by (simp add: heap_inv_def)
      from inv lt rlt ne c
      have d: "array (middlewares (contexts s ! r')) \<noteq> array (middlewares c) \<or>
               array (middlewares (contexts s ! r')) = None"
        unfolding heap_inv_def by blast
      from append_go_other(2)[OF app ok2 d] eq slice_ok_arrays[of ?s' s1]
      show "slice_ok ?s' (middlewares (contexts ?s' ! r'))"
        by (simp add: set_middlewares_simps)
      from append_go_other(3)[OF app ok2 d]
      show "array (middlewares (contexts s ! r')) \<noteq> None \<Longrightarrow>
            array (middlewares (contexts s ! r')) \<noteq> array sl"
        by simp
    }
  qed
  have okr: "slice_ok ?s' (middlewares (contexts ?s' ! r))"
    using append_go_ok[OF ok app] rlt fr slice_ok_arrays[of ?s' s1 sl]
    by (simp add: set_middlewares_simps)
  have arr: "middlewares (contexts ?s' ! r) = sl"
    using rlt fr by (simp add: set_middlewares_simps)
  have len: "length (contexts ?s') = length (contexts s)"
    using fr by (simp add: set_middlewares_simps)
  have inv': "heap_inv ?s'"
    unfolding heap_inv_def len
  proof (intro conjI allI impI)
    fix q assume "q < length (contexts s)"
    then show "slice_ok ?s' (middlewares (contexts ?s' ! q))"
      using okr other(3)[of q] by (cases "q = r") auto
  next
    fix q q'
    assume q: "q < length (contexts s)" and q': "q' < length (contexts s)" and ne: "q \<noteq> q'"
      and nn: "array (middlewares (contexts ?s' ! q)) \<noteq> None"
    show "array (middlewares (contexts ?s' ! q)) \<noteq> array (middlewares (contexts ?s' ! q'))"
    proof (cases "q = r")
      case True
      then have "q' \<noteq> r" using ne by simp
      from other(2)[OF this] other(4)[OF this q'] nn True arr
      show ?thesis by auto
    next
      case qr: False
      show ?thesis
      proof (cases "q' = r")
        case True
        from other(2)[OF qr] other(4)[OF qr q] nn True arr
        show ?thesis by auto
      next
        case False
        from other(2)[OF qr] other(2)[OF False] inv q q' ne nn
        show ?thesis unfolding heap_inv_def by auto
      qed
    qed
  qed
  have pat: "pattern (contexts ?s' ! r) = pattern c" "ServeMux (contexts ?s' ! r) = ServeMux c"
    using rlt c fr by (simp_all add: set_middlewares_simps)
  from use own pat len inv' other(1,2) fr show ?thesis
    by (auto simp: set_middlewares_simps)
qed


lemma append_go_nil_arrays:
  assumes "append_go rt nil xs s = (sl', s')"
  shows "take (length (arrays s)) (arrays s') = arrays s"
    and "array sl' = None \<or> array sl' = Some (length (arrays s))"
  using assms
  by (auto simp: append_go_def Let_def nil_def cap_def cells_def split: if_splits)

lemma slice_ok_nil: "slice_ok s nil"
  by (simp add: slice_ok_def nil_def)

lemma elems_nil: "elems s nil = []"
  by (simp add: elems_def nil_def)

lemma elems_extend:
  assumes "slice_ok s sl" and "take (length (arrays s)) (arrays s') = arrays s"
  shows "elems s' sl = elems s sl" and "slice_ok s' sl"
proof -
  have le: "length (arrays s) \<le> length (arrays s')"
  proof -
    have "length (take (length (arrays s)) (arrays s')) = length (arrays s)"
      using assms(2) by simp
    then show ?thesis by simp
  qed
  have nth: "arrays s' ! a = arrays s ! a" if "a < length (arrays s)" for a
    using assms(2) that by (metis nth_take)
  show "elems s' sl = elems s sl"
    using assms(1) le nth
    by (auto simp: elems_def cells_def deref_def slice_ok_def split: option.splits)
  show "slice_ok s' sl"
    using assms(1) le nth
    by (auto simp: slice_ok_def split: option.splits)
qed

lemma Route_callback:
  "Route rt r pat (Some fn) s =
     (case Route rt r pat (Some (\<lambda>_ t. Inr t)) s of
        Inl e \<Rightarrow> Inl e
      | Inr (nr, s3) \<Rightarrow> (case fn nr s3 of Inl e \<Rightarrow> Inl e | Inr s4 \<Rightarrow> Inr (nr, s4)))"
  by (simp add: Route_def Let_def split: option.splits prod.splits)

lemma Group_Route: "Group rt r (Some fn) s = Route rt r [] (Some fn) s"
  by (simp add: Group_def Route_def split: option.splits)

lemma Route_id_frame:
  assumes r: "deref (contexts s) r = Some c"
  shows "\<exists>s3 sl. Route rt r pat (Some (\<lambda>_ t. Inr t)) s = Inr (length (contexts s), s3) \<and>
           contexts s3 = contexts s @ [\<lparr>pattern = pattern c @ pat, ServeMux = ServeMux c, middlewares = sl\<rparr>] \<and>
           elems s3 sl = elems s (middlewares c) \<and> slice_ok s3 sl \<and>
           (array sl = None \<or> array sl = Some (length (arrays s))) \<and>
           muxes s3 = muxes s \<and> take (length (arrays s)) (arrays s3) = arrays s"
proof -
  let ?nr = "length (contexts s)"
  let ?s1 = "s\<lparr>contexts := contexts s @ [\<lparr>pattern = pattern c @ pat, ServeMux = ServeMux c, middlewares = nil\<rparr>]\<rparr>"
  from r have rlt: "r < length (contexts s)" and c: "c = contexts s ! r"
    by (auto simp: deref_def split: if_splits)
  have g1: "get_middlewares ?s1 ?nr = nil" "get_middlewares ?s1 r = middlewares c"
    using rlt c by (simp_all add: get_middlewares_def nth_append)
  obtain sl2 s2 where app: "append_go rt nil (elems ?s1 (middlewares c)) ?s1 = (sl2, s2)"
    by (cases "append_go rt nil (elems ?s1 (middlewares c)) ?s1")
  let ?s3 = "set_middlewares ?nr sl2 s2"
  have route: "Route rt r pat (Some (\<lambda>_ t. Inr t)) s = Inr (?nr, ?s3)"
    using r app g1 by (simp add: Route_def new_routerContext_def)
  note fr = append_go_frame[OF app]
  have e1: "elems ?s1 (middlewares c) = elems s (middlewares c)"
    by (rule elems_arrays) simp
  have ctx: "contexts ?s3 = contexts s @ [\<lparr>pattern = pattern c @ pat, ServeMux = ServeMux c, middlewares = sl2\<rparr>]"
    using fr by (simp add: set_middlewares_def)
  have el: "elems ?s3 sl2 = elems s (middlewares c)"
    using append_go_elems[OF slice_ok_nil app] e1 elems_arrays[of ?s3 s2 sl2]
    by (simp add: set_middlewares_simps elems_nil)
  have ok: "slice_ok ?s3 sl2"
    using append_go_ok[OF slice_ok_nil app] slice_ok_arrays[of ?s3 s2 sl2]
    by (simp add: set_middlewares_simps)
  from append_go_nil_arrays[OF app] fr route ctx el ok show ?thesis
    by (auto simp: set_middlewares_simps)
qed


lemma Route_id_props:
  assumes inv: "heap_inv s" and r: "deref (contexts s) r = Some c"
  shows "\<exists>s3. Route rt r pat (Some (\<lambda>_ t. Inr t)) s = Inr (length (contexts s), s3) \<and>
           length (contexts s3) = Suc (length (contexts s)) \<and>
           pattern (contexts s3 ! length (contexts s)) = pattern c @ pat \<and>
           ServeMux (contexts s3 ! length (contexts s)) = ServeMux c \<and>
           chain_of s3 (length (contexts s)) = chain_of s r \<and>
           (\<forall>r' < length (contexts s).
              contexts s3 ! r' = contexts s ! r' \<and> chain_of s3 r' = chain_of s r') \<and>
           muxes s3 = muxes s \<and> take (length (arrays s)) (arrays s3) = arrays s \<and>
           heap_inv s3"
proof -
  let ?n = "length (contexts s)"
  from Route_id_frame[OF r, of rt pat] obtain s3 sl where
    route: "Route rt r pat (Some (\<lambda>_ t. Inr t)) s = Inr (?n, s3)" and
    ctx: "contexts s3 = contexts s @ [\<lparr>pattern = pattern c @ pat, ServeMux = ServeMux c, middlewares = sl\<rparr>]" and
    el: "elems s3 sl = elems s (middlewares c)" and ok: "slice_ok s3 sl" and
    arr: "array sl = None \<or> array sl = Some (length (arrays s))" and
    mux: "muxes s3 = muxes s" and pre: "take (length (arrays s)) (arrays s3) = arrays s"
    by blast
  have old: "contexts s3 ! q = contexts s ! q" "slice_ok s (middlewares (contexts s ! q))"
    "slice_ok s3 (middlewares (contexts s ! q))"
    "elems s3 (middlewares (contexts s ! q)) = elems s (middlewares (contexts s ! q))"
    "array (middlewares (contexts s ! q)) \<noteq> None \<Longrightarrow> array (middlewares (contexts s ! q)) \<noteq> array sl"
    if q: "q < ?n" for q
  proof -
    show "contexts s3 ! q = contexts s ! q" using q ctx by (simp add: nth_append)
    show o: "slice_ok s (middlewares (contexts s ! q))" using inv q by (simp add: heap_inv_def)
    from elems_extend[OF o pre]
    show "slice_ok s3 (middlewares (contexts s ! q))"
      "elems s3 (middlewares (contexts s ! q)) = elems s (middlewares (contexts s ! q))"
      by simp_all
    show "array (middlewares (contexts s ! q)) \<noteq> None \<Longrightarrow> array (middlewares (contexts s ! q)) \<noteq> array sl"
      using o arr by (auto simp: slice_ok_def split: option.splits)
  qed
  have new: "contexts s3 ! ?n = \<lparr>pattern = pattern c @ pat, ServeMux = ServeMux c, middlewares = sl\<rparr>"
    using ctx by simp
  have len: "length (contexts s3) = Suc ?n" using ctx by simp
  from r have rlt: "r < ?n" and c: "c = contexts s ! r"
    by (auto simp: deref_def split: if_splits)
  have ch_new: "chain_of s3 ?n = chain_of s r"
    using new len el rlt c by (simp add: chain_of_def deref_def)
  have ch_old: "chain_of s3 q = chain_of s q" if "q < ?n" for q
    using old(1,4)[OF that] that len by (simp add: chain_of_def deref_def)
  have inv3: "heap_inv s3"
    unfolding heap_inv_def len
  proof (intro conjI allI impI)
    fix q assume "q < Suc ?n"
    then show "slice_ok s3 (middlewares (contexts s3 ! q))"
      using old(1,3)[of q] new ok by (cases "q = ?n") auto
  next
    fix q q'
    assume q: "q < Suc ?n" and q': "q' < Suc ?n" and ne: "q \<noteq> q'"
      and nn: "array (middlewares (contexts s3 ! q)) \<noteq> None"
    show "array (middlewares (contexts s3 ! q)) \<noteq> array (middlewares (contexts s3 ! q'))"
    proof (cases "q = ?n")
      case True
      then have lt: "q' < ?n" using q' ne by simp
      from old(1)[OF lt] old(5)[OF lt] nn True new show ?thesis by auto
    next
      case False
      then have lt: "q < ?n" using q by simp
      show ?thesis
      proof (cases "q' = ?n")
        case True
        from old(1)[OF lt] old(5)[OF lt] nn True new show ?thesis by auto
      next
        case False
        then have lt': "q' < ?n" using q' by simp
        from old(1)[OF lt] old(1)[OF lt'] inv lt lt' ne nn
        show ?thesis unfolding heap_inv_def by auto
      qed
    qed
  qed
  from route len new ch_new old(1) ch_old mux pre inv3 show ?thesis
    by auto
qed

lemma With_Use:
  assumes r: "deref (contexts s) r = Some c"
    and route: "Route rt r [] (Some (\<lambda>_ t. Inr t)) s = Inr (nr, s3)"
  shows "With rt r mws s = (case Use rt nr mws s3 of Inl e \<Rightarrow> Inl e | Inr s5 \<Rightarrow> Inr (nr, s5))"
proof -
  from Route_id_frame[OF r, of rt "[]"] route obtain sl where
    nr: "nr = length (contexts s)" and
    ctx: "contexts s3 = contexts s @ [\<lparr>pattern = pattern c @ [], ServeMux = ServeMux c, middlewares = sl\<rparr>]"
    by auto
  have d: "deref (contexts s3) nr = Some (contexts s3 ! nr)"
    using nr ctx by (simp add: deref_def)
  have g: "get_middlewares s3 nr = middlewares (contexts s3 ! nr)"
    by (simp add: get_middlewares_def)
  from route r have "With rt r mws s =
      (let (sl4, s4) = append_go rt (get_middlewares s3 nr) mws s3
       in Inr (nr, set_middlewares nr sl4 s4))"
    by (auto simp: With_def Route_def Let_def split: prod.splits)
  then show ?thesis
    using d g by (simp add: Use_def split: prod.splits)
qed

section \<open>Registration and call sequences\<close>

text \<open>
  The loop of \<open>Method\<close> builds the nested handler; \<open>Method\<close> changes one mux and nothing
  else; every call keeps the invariant, and changes a chain only when it is \<open>Use\<close> on that
  very context.
\<close>

lemma Method_loop_nested:
  "n \<le> length ms \<Longrightarrow> Method_loop (map Some ms) n h = Inr (nested (take n ms) h)"
proof (induction n arbitrary: h)
  case 0
  then show ?case by simp
next
  case (Suc n)
  have app: "nested (xs @ [m]) x = nested xs (m x)" for xs :: "('a \<Rightarrow> 'a) list" and m x
    by (induction xs) simp_all
  from Suc.prems have "take (Suc n) ms = take n ms @ [ms ! n]"
    by (simp add: take_Suc_conv_app_nth)
  with Suc show ?case by (simp add: deref_def app)
qed

lemma Method_install:
  assumes r: "deref (contexts s) r = Some c" and ok: "slice_ok s (middlewares c)"
    and ch: "chain_of s r = map Some ms"
  shows "Method rt r method pat h s =
           install rt s (ServeMux c) ((if method = [] then [] else method @ '' '') @ pattern c @ pat)
             (nested ms h)"
proof -
  from r ch have el: "elems s (middlewares c) = map Some ms"
    by (simp add: chain_of_def)
  from slice_ok_cells[OF ok] have "length (elems s (middlewares c)) = len (middlewares c)"
    by (simp add: elems_def)
  with el have n: "len (middlewares c) = length ms" by simp
  have "Method_loop (elems s (middlewares c)) (len (middlewares c)) h = Inr (nested ms h)"
    using Method_loop_nested[of "length ms" ms h] el n by simp
  with r show ?thesis
    by (simp add: Method_def install_def Let_def split: option.splits)
qed

lemma Method_frame:
  assumes "Method rt r method pat h s = Inr s'"
  shows "contexts s' = contexts s" and "arrays s' = arrays s"
    and "\<exists>c mux mux' h'. deref (contexts s) r = Some c \<and> deref (muxes s) (ServeMux c) = Some mux \<and>
           Method_loop (elems s (middlewares c)) (len (middlewares c)) h = Inr h' \<and>
           Handle rt mux ((if method = [] then [] else method @ '' '') @ pattern c @ pat) h' = Some mux' \<and>
           s' = s\<lparr>muxes := (muxes s)[ServeMux c := mux']\<rparr>"
  using assms
  by (auto simp: Method_def Let_def split: option.splits sum.splits if_splits)

lemma chain_of_cong:
  "contexts s' = contexts s \<Longrightarrow> arrays s' = arrays s \<Longrightarrow> chain_of s' q = chain_of s q"
  using elems_arrays[of s' s] by (simp add: chain_of_def split: option.splits)

lemma heap_inv_cong:
  "contexts s' = contexts s \<Longrightarrow> arrays s' = arrays s \<Longrightarrow> heap_inv s' = heap_inv s"
  using slice_ok_arrays[of s' s] by (simp add: heap_inv_def)

lemma install_frame:
  assumes "install rt s a key h = Inr s'"
  shows "contexts s' = contexts s" and "arrays s' = arrays s"
  using assms by (auto simp: install_def split: option.splits)

lemma heap_inv_empty: "heap_inv empty_heap"
  by (simp add: heap_inv_def empty_heap_def)

lemma NewRouter_props:
  assumes inv: "heap_inv s"
  shows "fst (NewRouter rt s) = length (contexts s)"
    and "contexts (snd (NewRouter rt s)) =
           contexts s @ [\<lparr>pattern = [], ServeMux = length (muxes s), middlewares = nil\<rparr>]"
    and "arrays (snd (NewRouter rt s)) = arrays s"
    and "muxes (snd (NewRouter rt s)) = muxes s @ [NewServeMux rt]"
    and "heap_inv (snd (NewRouter rt s))"
proof -
  let ?t = "snd (NewRouter rt s)"
  show "fst (NewRouter rt s) = length (contexts s)"
    by (simp add: NewRouter_def new_routerContext_def Let_def)
  show c: "contexts ?t = contexts s @ [\<lparr>pattern = [], ServeMux = length (muxes s), middlewares = nil\<rparr>]"
    by (simp add: NewRouter_def new_routerContext_def Let_def)
  show a: "arrays ?t = arrays s"
    by (simp add: NewRouter_def new_routerContext_def Let_def)
  show "muxes ?t = muxes s @ [NewServeMux rt]"
    by (simp add: NewRouter_def new_routerContext_def Let_def)
  show "heap_inv ?t"
    using inv slice_ok_arrays[OF a] slice_ok_nil[of s]
    by (auto simp: heap_inv_def c nth_append less_Suc_eq nil_def)
qed


lemma With_props:
  assumes inv: "heap_inv s" and r: "deref (contexts s) r = Some c"
  shows "\<exists>s'. With rt r mws s = Inr (length (contexts s), s') \<and>
           length (contexts s') = Suc (length (contexts s)) \<and>
           pattern (contexts s' ! length (contexts s)) = pattern c \<and>
           ServeMux (contexts s' ! length (contexts s)) = ServeMux c \<and>
           chain_of s' (length (contexts s)) = chain_of s r @ mws \<and>
           (\<forall>q < length (contexts s).
              contexts s' ! q = contexts s ! q \<and> chain_of s' q = chain_of s q) \<and>
           muxes s' = muxes s \<and> heap_inv s'"
proof -
  let ?n = "length (contexts s)"
  from Route_id_props[OF inv r, of rt "[]"] obtain s3 where
    route: "Route rt r [] (Some (\<lambda>_ t. Inr t)) s = Inr (?n, s3)" and
    len3: "length (contexts s3) = Suc ?n" and
    pat3: "pattern (contexts s3 ! ?n) = pattern c @ []" and
    mux3: "ServeMux (contexts s3 ! ?n) = ServeMux c" and
    ch3: "chain_of s3 ?n = chain_of s r" and
    old3: "\<forall>q < ?n. contexts s3 ! q = contexts s ! q \<and> chain_of s3 q = chain_of s q" and
    m3: "muxes s3 = muxes s" and inv3: "heap_inv s3"
    by blast
  have d: "deref (contexts s3) ?n = Some (contexts s3 ! ?n)"
    using len3 by (simp add: deref_def)
  from Use_props[OF inv3 d, of rt mws] obtain s' where
    use: "Use rt ?n mws s3 = Inr s'" and
    ch: "chain_of s' ?n = chain_of s3 ?n @ mws" and
    m: "muxes s' = muxes s3" and len: "length (contexts s') = length (contexts s3)" and
    pat: "pattern (contexts s' ! ?n) = pattern (contexts s3 ! ?n)" and
    mux: "ServeMux (contexts s' ! ?n) = ServeMux (contexts s3 ! ?n)" and
    old: "\<forall>q. q \<noteq> ?n \<longrightarrow> contexts s' ! q = contexts s3 ! q \<and> chain_of s' q = chain_of s3 q" and
    inv': "heap_inv s'"
    by blast
  have "With rt r mws s = Inr (?n, s')"
    using With_Use[OF r route, of mws] use by simp
  moreover have "\<forall>q < ?n. contexts s' ! q = contexts s ! q \<and> chain_of s' q = chain_of s q"
    using old old3 by simp
  ultimately show ?thesis
    using len len3 pat pat3 mux mux3 ch ch3 m m3 inv' by auto
qed

lemma do_call_props:
  assumes inv: "heap_inv s" and run: "do_call rt c s = Inr t"
  shows "heap_inv t \<and> length (contexts s) \<le> length (contexts t) \<and>
         (\<forall>q < length (contexts s).
            chain_of t q = chain_of s q @ used q c \<and>
            pattern (contexts t ! q) = pattern (contexts s ! q) \<and>
            ServeMux (contexts t ! q) = ServeMux (contexts s ! q))"
proof (cases c)
  case NewRouterCall
  with run have t: "t = snd (NewRouter rt s)" by simp
  from NewRouter_props(2,3,5)[OF inv, of rt] show ?thesis
    unfolding t NewRouterCall
    using elems_arrays[of "snd (NewRouter rt s)" s]
    by (auto simp: chain_of_def deref_def nth_append)
next
  case (UseCall r ms)
  with run have u: "Use rt r ms s = Inr t" by simp
  then obtain c0 where r: "deref (contexts s) r = Some c0"
    by (auto simp: Use_def split: option.splits)
  then have c0: "c0 = contexts s ! r" by (auto simp: deref_def split: if_splits)
  from Use_props[OF inv r, of rt ms] u c0 show ?thesis
    unfolding UseCall by (auto simp: used.simps)
next
  case (WithCall r ms)
  with run obtain nr where w: "With rt r ms s = Inr (nr, t)"
    by (auto split: sum.splits)
  then obtain c0 where r: "deref (contexts s) r = Some c0"
    by (auto simp: With_def split: option.splits)
  from With_props[OF inv r, of rt ms] w show ?thesis
    unfolding WithCall by auto
next
  case (GroupCall r)
  with run obtain nr where w: "Route rt r [] (Some (\<lambda>_ t. Inr t)) s = Inr (nr, t)"
    by (auto simp: Group_Route split: sum.splits)
  then obtain c0 where r: "deref (contexts s) r = Some c0"
    by (auto simp: Route_def split: option.splits)
  from Route_id_props[OF inv r, of rt "[]"] w show ?thesis
    unfolding GroupCall by auto
next
  case (RouteCall r pat)
  with run obtain nr where w: "Route rt r pat (Some (\<lambda>_ t. Inr t)) s = Inr (nr, t)"
    by (auto split: sum.splits)
  then obtain c0 where r: "deref (contexts s) r = Some c0"
    by (auto simp: Route_def split: option.splits)
  from Route_id_props[OF inv r, of rt pat] w show ?thesis
    unfolding RouteCall by auto
next
  case (MethodCall r verb pat h)
  with run have m: "Method rt r verb pat h s = Inr t" by simp
  from Method_frame(1,2)[OF m] heap_inv_cong[of t s] chain_of_cong[of t s] inv
  show ?thesis unfolding MethodCall by simp
qed

lemma do_calls_props:
  assumes "heap_inv s" and "do_calls rt cs s = Inr t"
  shows "heap_inv t \<and> length (contexts s) \<le> length (contexts t) \<and>
         (\<forall>q < length (contexts s).
            chain_of t q = chain_of s q @ appended q cs \<and>
            pattern (contexts t ! q) = pattern (contexts s ! q) \<and>
            ServeMux (contexts t ! q) = ServeMux (contexts s ! q))"
  using assms
proof (induction cs arbitrary: s)
  case Nil
  then show ?case by (simp add: appended_def)
next
  case (Cons c cs)
  from Cons.prems(2) obtain u where c: "do_call rt c s = Inr u" and cs: "do_calls rt cs u = Inr t"
    by (auto split: sum.splits)
  note one = do_call_props[OF Cons.prems(1) c]
  from one have invu: "heap_inv u" by simp
  note rest = Cons.IH[OF invu cs]
  have ap: "appended q (c # cs) = used q c @ appended q cs" for q
    by (simp add: appended_def)
  from one rest show ?case
    by (auto simp: ap)
qed

lemma nested_snoc: "nested (ms @ [m]) h = nested ms (m h)"
  by (induction ms) simp_all

lemma verb_defs:
  "Connect rt r pat h s = Method rt r ''CONNECT'' pat h s"
  "Delete rt r pat h s = Method rt r ''DELETE'' pat h s"
  "Get rt r pat h s = Method rt r ''GET'' pat h s"
  "Head rt r pat h s = Method rt r ''HEAD'' pat h s"
  "Options rt r pat h s = Method rt r ''OPTIONS'' pat h s"
  "Patch rt r pat h s = Method rt r ''PATCH'' pat h s"
  "Post rt r pat h s = Method rt r ''POST'' pat h s"
  "Put rt r pat h s = Method rt r ''PUT'' pat h s"
  "Trace rt r pat h s = Method rt r ''TRACE'' pat h s"
  by (simp_all add: Connect_def Delete_def Get_def Head_def Options_def Patch_def Post_def
        Put_def Trace_def MethodFunc_def MethodConnect_def MethodDelete_def MethodGet_def
        MethodHead_def MethodOptions_def MethodPatch_def MethodPost_def MethodPut_def
        MethodTrace_def)

lemma heap_inv_slice:
  "heap_inv s \<Longrightarrow> deref (contexts s) r = Some c \<Longrightarrow> slice_ok s (middlewares c)"
  by (auto simp: heap_inv_def deref_def split: if_splits)

lemma test_heap_ok:
  "heap_inv test_heap"
  "deref (contexts test_heap) 0 = Some test_ctx"
  "chain_of test_heap 0 = map Some [(#) 1, (#) 2]"
  by (simp_all add: heap_inv_def test_heap_def test_ctx_def slice_ok_def deref_def chain_of_def
        elems_def cells_def)

lemma derived_independent:
  assumes inv1: "heap_inv s1" and a: "a < length (contexts s1)" and b: "b < length (contexts s1)"
  shows "\<forall>cs s2. do_calls rt cs s1 = Inr s2 \<longrightarrow>
           chain_of s2 a = chain_of s1 a @ appended a cs \<and>
           chain_of s2 b = chain_of s1 b @ appended b cs"
  using do_calls_props[OF inv1] a b by blast

lemma deref_lt: "deref xs a = Some x \<Longrightarrow> a < length xs"
  by (auto simp: deref_def split: if_splits)

lemmas eval_defs = With_def Use_def Group_def Route_def Method_def MethodFunc_def Get_def MethodGet_def
  new_routerContext_def append_go_def get_middlewares_def set_middlewares_def deref_def nil_def
  cells_def cap_def elems_def chain_of_def test_rt_def test_heap_def test_ctx_def Let_def
  appended_def install_def

lemma deref_Some_nth: "a < length xs \<Longrightarrow> deref xs a = Some (xs ! a)"
  by (simp add: deref_def)

lemma root_heap_ok:
  "heap_inv root_heap"
  "deref (contexts root_heap) 0 = Some \<lparr>pattern = [], ServeMux = 0, middlewares = nil\<rparr>"
  "chain_of root_heap 0 = map Some []"
  "muxes root_heap = [[]]"
  by (simp_all add: root_heap_def heap_inv_def NewRouter_def new_routerContext_def empty_heap_def
        slice_ok_def deref_def chain_of_def elems_def cells_def nil_def test_rt_def Let_def)

lemma Method_at:
  assumes "heap_inv s" and "r < length (contexts s)" and "chain_of s r = map Some ms"
  shows "Method rt r method pat h s =
           install rt s (ServeMux (contexts s ! r))
             ((if method = [] then [] else method @ '' '') @ pattern (contexts s ! r) @ pat)
             (nested ms h)"
proof -
  note d = deref_Some_nth[OF assms(2)]
  from Method_install[OF d heap_inv_slice[OF assms(1) d] assms(3)] show ?thesis .
qed

lemma Use_muxes:
  assumes "Use rt r mws s = Inr s'"
  shows "muxes s' = muxes s"
proof -
  from assms obtain c where r: "deref (contexts s) r = Some c"
    by (auto simp: Use_def split: option.splits)
  obtain sl s1 where app: "append_go rt (middlewares c) mws s = (sl, s1)"
    by (cases "append_go rt (middlewares c) mws s")
  from Use_unfold[OF r app] assms append_go_frame(2)[OF app] show ?thesis
    by (auto simp: set_middlewares_simps)
qed

lemma Use_total:
  assumes "deref (contexts s) r = Some c"
  shows "\<exists>s'. Use rt r mws s = Inr s'"
proof -
  obtain sl s1 where app: "append_go rt (middlewares c) mws s = (sl, s1)"
    by (cases "append_go rt (middlewares c) mws s")
  from Use_unfold[OF assms app] show ?thesis by blast
qed

lemma With_muxes:
  assumes r: "deref (contexts s) r = Some c"
  shows "\<exists>nr s'. With rt r mws s = Inr (nr, s') \<and> muxes s' = muxes s"
proof -
  let ?n = "length (contexts s)"
  from Route_id_frame[OF r, of rt "[]"] obtain s3 sl where
    route: "Route rt r [] (Some (\<lambda>_ t. Inr t)) s = Inr (?n, s3)" and
    ctx: "contexts s3 = contexts s @ [\<lparr>pattern = pattern c @ [], ServeMux = ServeMux c, middlewares = sl\<rparr>]" and
    m3: "muxes s3 = muxes s"
    by blast
  have d: "deref (contexts s3) ?n = Some (contexts s3 ! ?n)"
    using ctx by (simp add: deref_def)
  from Use_total[OF d, of rt mws] obtain s' where u: "Use rt ?n mws s3 = Inr s'" by blast
  from With_Use[OF r route, of mws] u Use_muxes[OF u] m3 show ?thesis by simp
qed

lemma Route_muxes:
  assumes r: "deref (contexts s) r = Some c"
  shows "\<exists>nr s1. muxes s1 = muxes s \<and>
           (\<forall>fn. Route rt r pat (Some fn) s =
                   (case fn nr s1 of Inl e \<Rightarrow> Inl e | Inr s2 \<Rightarrow> Inr (nr, s2)))"
proof -
  from Route_id_frame[OF r, of rt pat] obtain s1 where
    route: "Route rt r pat (Some (\<lambda>_ t. Inr t)) s = Inr (length (contexts s), s1)" and
    m: "muxes s1 = muxes s"
    by blast
  have "Route rt r pat (Some fn) s =
          (case fn (length (contexts s)) s1 of Inl e \<Rightarrow> Inl e | Inr s2 \<Rightarrow> Inr (length (contexts s), s2))"
    for fn
    using Route_callback[of rt r pat fn s] route by simp
  with m show ?thesis by blast
qed


text \<open>
  The panics of router.go itself: a nil middleware in the chain, a nil callback, a nil
  receiver. And the invariant holds of every heap that calls build from the empty heap.
\<close>

lemma Method_loop_char:
  "n \<le> length ms \<Longrightarrow>
   Method_loop ms n h =
     (if None \<in> set (take n ms) then Inl NilFunc else Inr (nested (map the (take n ms)) h))"
proof (induction n arbitrary: h)
  case 0
  then show ?case by simp
next
  case (Suc n)
  then have t: "take (Suc n) ms = take n ms @ [ms ! n]"
    by (simp add: take_Suc_conv_app_nth)
  from Suc.prems have d: "deref ms n = Some (ms ! n)" by (simp add: deref_def)
  show ?case
  proof (cases "ms ! n")
    case None
    then show ?thesis using d t by simp
  next
    case (Some m)
    with Suc d t show ?thesis by (simp add: nested_snoc)
  qed
qed

lemma Method_nil_middleware:
  assumes "heap_inv s" and "deref (contexts s) r = Some c" and "None \<in> set (chain_of s r)"
  shows "Method rt r verb pat h s = Inl NilFunc"
proof -
  from assms(2,3) have el: "None \<in> set (elems s (middlewares c))"
    by (simp add: chain_of_def)
  from slice_ok_cells[OF heap_inv_slice[OF assms(1,2)]]
  have n: "length (elems s (middlewares c)) = len (middlewares c)"
    by (simp add: elems_def)
  from Method_loop_char[of "len (middlewares c)" "elems s (middlewares c)" h] n el
  have "Method_loop (elems s (middlewares c)) (len (middlewares c)) h = Inl NilFunc"
    by simp
  with assms(2) show ?thesis by (simp add: Method_def)
qed

lemma Group_nil_callback:
  "deref (contexts s) r = Some c \<Longrightarrow> Group rt r None s = Inl NilFunc"
  "deref (contexts s) r = Some c \<Longrightarrow> Route rt r pat None s = Inl NilFunc"
  by (simp_all add: Group_def Route_def Let_def split: prod.splits)

lemma nil_receiver:
  assumes "deref (contexts s) r = None"
  shows "Use rt r mws s = Inl NilPointer" and "With rt r mws s = Inl NilPointer"
    and "Group rt r fn s = Inl NilPointer" and "Route rt r pat fn s = Inl NilPointer"
    and "Method rt r verb pat h s = Inl NilPointer"
  using assms by (simp_all add: Use_def With_def Group_def Route_def Method_def)

lemma reachable_heap_inv:
  "do_calls rt cs empty_heap = Inr s \<Longrightarrow> heap_inv s"
  using do_calls_props[OF heap_inv_empty] by blast

section \<open>The claims\<close>

text \<open>
  C1: in a context whose chain is \<open>m1, ..., mn\<close> (in the order they were added),
  \<open>Method\<close>, \<open>MethodFunc\<close> and each of the nine verb helpers install the handler
  \<open>m1(m2(...mn(h)...))\<close>: the first-added middleware is outermost and the last-added one
  is applied to \<open>h\<close> itself.
\<close>

theorem C1_Method_composes_chain:
  assumes "heap_inv s" and "deref (contexts s) r = Some c" and "chain_of s r = map Some ms"
  shows "Method rt r method pat h s =
           install rt s (ServeMux c) ((if method = [] then [] else method @ '' '') @ pattern c @ pat)
             (nested ms h) \<and>
         MethodFunc rt r method pat h s =
           install rt s (ServeMux c) ((if method = [] then [] else method @ '' '') @ pattern c @ pat)
             (nested ms h) \<and>
         (\<forall>(verb, name) \<in> set [(Connect, ''CONNECT''), (Delete, ''DELETE''), (Get, ''GET''),
              (Head, ''HEAD''), (Options, ''OPTIONS''), (Patch, ''PATCH''), (Post, ''POST''),
              (Put, ''PUT''), (Trace, ''TRACE'')].
            verb rt r pat h s =
              install rt s (ServeMux c) (name @ '' '' @ pattern c @ pat) (nested ms h)) \<and>
         (\<forall>m rest. ms = m # rest \<longrightarrow> nested ms h = m (nested rest h)) \<and>
         (\<forall>front m. ms = front @ [m] \<longrightarrow> nested ms h = nested front (m h))"
proof -
  note ok = heap_inv_slice[OF assms(1,2)]
  note M = Method_install[OF assms(2) ok assms(3)]
  have "Method rt r method pat h s =
          install rt s (ServeMux c) ((if method = [] then [] else method @ '' '') @ pattern c @ pat)
            (nested ms h)"
    by (rule M)
  moreover have "\<forall>(verb, name) \<in> set [(Connect, ''CONNECT''), (Delete, ''DELETE''), (Get, ''GET''),
              (Head, ''HEAD''), (Options, ''OPTIONS''), (Patch, ''PATCH''), (Post, ''POST''),
              (Put, ''PUT''), (Trace, ''TRACE'')].
            verb rt r pat h s =
              install rt s (ServeMux c) (name @ '' '' @ pattern c @ pat) (nested ms h)"
    by (simp add: verb_defs M)
  ultimately show ?thesis
    by (simp add: MethodFunc_def nested_snoc)
qed

theorem C1_witness:
  "heap_inv test_heap \<and> deref (contexts test_heap) 0 = Some test_ctx \<and>
   chain_of test_heap 0 = map Some [(#) 1, (#) 2] \<and>
   Method test_rt 0 ''GET'' ''/a'' [0] test_heap =
     Inr (test_heap\<lparr>muxes := [[(''GET /api/a'', [1, 2, 0])]]\<rparr>) \<and>
   Post test_rt 0 ''/a'' [0] test_heap =
     Inr (test_heap\<lparr>muxes := [[(''POST /api/a'', [1, 2, 0])]]\<rparr>)"
  using C1_Method_composes_chain[OF test_heap_ok, of test_rt "''GET''" "''/a''" "[0]"] test_heap_ok
  by (simp add: install_def deref_def test_rt_def test_heap_def test_ctx_def)

text \<open>
  C2: a context derived by \<open>With\<close>, \<open>Group\<close> or \<open>Route\<close> starts with the parent's
  chain (for \<open>With\<close>, followed by the given middlewares), and from then on the two chains
  are independent: after any later calls, each of the two chains is what it was at the
  derivation followed by what \<open>Use\<close> appended to that very context.
\<close>

theorem C2_copy_on_derive:
  assumes "heap_inv s" and "deref (contexts s) r = Some c"
  shows "(\<exists>nr s1. With rt r mws s = Inr (nr, s1) \<and> nr \<noteq> r \<and>
            chain_of s1 nr = chain_of s r @ mws \<and> chain_of s1 r = chain_of s r \<and>
            (\<forall>cs s2. do_calls rt cs s1 = Inr s2 \<longrightarrow>
               chain_of s2 nr = chain_of s1 nr @ appended nr cs \<and>
               chain_of s2 r = chain_of s1 r @ appended r cs)) \<and>
         (\<exists>nr s1. (\<forall>fn. Group rt r (Some fn) s =
                      (case fn nr s1 of Inl e \<Rightarrow> Inl e | Inr s2 \<Rightarrow> Inr (nr, s2))) \<and>
            nr \<noteq> r \<and> chain_of s1 nr = chain_of s r \<and> chain_of s1 r = chain_of s r \<and>
            (\<forall>cs s2. do_calls rt cs s1 = Inr s2 \<longrightarrow>
               chain_of s2 nr = chain_of s1 nr @ appended nr cs \<and>
               chain_of s2 r = chain_of s1 r @ appended r cs)) \<and>
         (\<exists>nr s1. (\<forall>fn. Route rt r pat (Some fn) s =
                      (case fn nr s1 of Inl e \<Rightarrow> Inl e | Inr s2 \<Rightarrow> Inr (nr, s2))) \<and>
            nr \<noteq> r \<and> chain_of s1 nr = chain_of s r \<and> chain_of s1 r = chain_of s r \<and>
            (\<forall>cs s2. do_calls rt cs s1 = Inr s2 \<longrightarrow>
               chain_of s2 nr = chain_of s1 nr @ appended nr cs \<and>
               chain_of s2 r = chain_of s1 r @ appended r cs))"
proof (intro conjI)
  let ?n = "length (contexts s)"
  note rlt = deref_lt[OF assms(2)]
  from With_props[OF assms, of rt mws] obtain s1 where
    w: "With rt r mws s = Inr (?n, s1)" and len: "length (contexts s1) = Suc ?n" and
    ch: "chain_of s1 ?n = chain_of s r @ mws" and
    old: "\<forall>q < ?n. contexts s1 ! q = contexts s ! q \<and> chain_of s1 q = chain_of s q" and
    inv1: "heap_inv s1"
    by blast
  from derived_independent[OF inv1, of ?n r rt] len rlt
  have "\<forall>cs s2. do_calls rt cs s1 = Inr s2 \<longrightarrow>
           chain_of s2 ?n = chain_of s1 ?n @ appended ?n cs \<and>
           chain_of s2 r = chain_of s1 r @ appended r cs"
    by simp
  with w ch old rlt
  show "\<exists>nr s1. With rt r mws s = Inr (nr, s1) \<and> nr \<noteq> r \<and>
            chain_of s1 nr = chain_of s r @ mws \<and> chain_of s1 r = chain_of s r \<and>
            (\<forall>cs s2. do_calls rt cs s1 = Inr s2 \<longrightarrow>
               chain_of s2 nr = chain_of s1 nr @ appended nr cs \<and>
               chain_of s2 r = chain_of s1 r @ appended r cs)"
    by (intro exI[of _ ?n] exI[of _ s1]) auto
next
  let ?n = "length (contexts s)"
  note rlt = deref_lt[OF assms(2)]
  from Route_id_props[OF assms, of rt "[]"] obtain s1 where
    w: "Route rt r [] (Some (\<lambda>_ t. Inr t)) s = Inr (?n, s1)" and len: "length (contexts s1) = Suc ?n" and
    ch: "chain_of s1 ?n = chain_of s r" and
    old: "\<forall>q < ?n. contexts s1 ! q = contexts s ! q \<and> chain_of s1 q = chain_of s q" and
    inv1: "heap_inv s1"
    by blast
  have cb: "\<forall>fn. Group rt r (Some fn) s = (case fn ?n s1 of Inl e \<Rightarrow> Inl e | Inr s2 \<Rightarrow> Inr (?n, s2))"
    using Route_callback[of rt r "[]" _ s] w by (simp add: Group_Route)
  from derived_independent[OF inv1, of ?n r rt] len rlt
  have "\<forall>cs s2. do_calls rt cs s1 = Inr s2 \<longrightarrow>
           chain_of s2 ?n = chain_of s1 ?n @ appended ?n cs \<and>
           chain_of s2 r = chain_of s1 r @ appended r cs"
    by simp
  with cb ch old rlt
  show "\<exists>nr s1. (\<forall>fn. Group rt r (Some fn) s =
                      (case fn nr s1 of Inl e \<Rightarrow> Inl e | Inr s2 \<Rightarrow> Inr (nr, s2))) \<and>
            nr \<noteq> r \<and> chain_of s1 nr = chain_of s r \<and> chain_of s1 r = chain_of s r \<and>
            (\<forall>cs s2. do_calls rt cs s1 = Inr s2 \<longrightarrow>
               chain_of s2 nr = chain_of s1 nr @ appended nr cs \<and>
               chain_of s2 r = chain_of s1 r @ appended r cs)"
    by (intro exI[of _ ?n] exI[of _ s1]) auto
next
  let ?n = "length (contexts s)"
  note rlt = deref_lt[OF assms(2)]
  from Route_id_props[OF assms, of rt pat] obtain s1 where
    w: "Route rt r pat (Some (\<lambda>_ t. Inr t)) s = Inr (?n, s1)" and len: "length (contexts s1) = Suc ?n" and
    ch: "chain_of s1 ?n = chain_of s r" and
    old: "\<forall>q < ?n. contexts s1 ! q = contexts s ! q \<and> chain_of s1 q = chain_of s q" and
    inv1: "heap_inv s1"
    by blast
  have cb: "\<forall>fn. Route rt r pat (Some fn) s = (case fn ?n s1 of Inl e \<Rightarrow> Inl e | Inr s2 \<Rightarrow> Inr (?n, s2))"
    using Route_callback[of rt r pat _ s] w by simp
  from derived_independent[OF inv1, of ?n r rt] len rlt
  have "\<forall>cs s2. do_calls rt cs s1 = Inr s2 \<longrightarrow>
           chain_of s2 ?n = chain_of s1 ?n @ appended ?n cs \<and>
           chain_of s2 r = chain_of s1 r @ appended r cs"
    by simp
  with cb ch old rlt
  show "\<exists>nr s1. (\<forall>fn. Route rt r pat (Some fn) s =
                      (case fn nr s1 of Inl e \<Rightarrow> Inl e | Inr s2 \<Rightarrow> Inr (nr, s2))) \<and>
            nr \<noteq> r \<and> chain_of s1 nr = chain_of s r \<and> chain_of s1 r = chain_of s r \<and>
            (\<forall>cs s2. do_calls rt cs s1 = Inr s2 \<longrightarrow>
               chain_of s2 nr = chain_of s1 nr @ appended nr cs \<and>
               chain_of s2 r = chain_of s1 r @ appended r cs)"
    by (intro exI[of _ ?n] exI[of _ s1]) auto
qed


theorem C2_witness:
  "heap_inv test_heap \<and> deref (contexts test_heap) 0 = Some test_ctx \<and>
   (\<exists>s1 s2. With test_rt 0 [Some ((#) 3)] test_heap = Inr (1, s1) \<and>
      do_calls test_rt [UseCall 0 [Some ((#) 7)], UseCall 1 [Some ((#) 9)]] s1 = Inr s2 \<and>
      chain_of s1 1 = [Some ((#) 1), Some ((#) 2), Some ((#) 3)] \<and>
      chain_of s2 1 = [Some ((#) 1), Some ((#) 2), Some ((#) 3), Some ((#) 9)] \<and>
      chain_of s2 0 = [Some ((#) 1), Some ((#) 2), Some ((#) 7)])"
proof -
  from C2_copy_on_derive[OF test_heap_ok(1,2), of test_rt "[Some ((#) 3)]"]
  obtain nr s1 where w: "With test_rt 0 [Some ((#) 3)] test_heap = Inr (nr, s1)"
    and ch: "chain_of s1 nr = chain_of test_heap 0 @ [Some ((#) 3)]"
      "chain_of s1 0 = chain_of test_heap 0"
    and ind: "\<forall>cs s2. do_calls test_rt cs s1 = Inr s2 \<longrightarrow>
               chain_of s2 nr = chain_of s1 nr @ appended nr cs \<and>
               chain_of s2 0 = chain_of s1 0 @ appended 0 cs"
    by blast
  have nr: "nr = 1" using w by (simp add: eval_defs split: if_splits)
  have "\<exists>s2. do_calls test_rt [UseCall 0 [Some ((#) 7)], UseCall 1 [Some ((#) 9)]] s1 = Inr s2"
    using w by (auto simp: eval_defs split: if_splits)
  then obtain s2 where
    run: "do_calls test_rt [UseCall 0 [Some ((#) 7)], UseCall 1 [Some ((#) 9)]] s1 = Inr s2"
    by blast
  from ind run have
    "chain_of s2 nr = chain_of s1 nr @ appended nr [UseCall 0 [Some ((#) 7)], UseCall 1 [Some ((#) 9)]]"
    "chain_of s2 0 = chain_of s1 0 @ appended 0 [UseCall 0 [Some ((#) 7)], UseCall 1 [Some ((#) 9)]]"
    by blast+
  then have fin: "chain_of s2 1 = [Some ((#) 1), Some ((#) 2), Some ((#) 3), Some ((#) 9)]"
    "chain_of s2 0 = [Some ((#) 1), Some ((#) 2), Some ((#) 7)]"
    "chain_of s1 1 = [Some ((#) 1), Some ((#) 2), Some ((#) 3)]"
    using nr ch test_heap_ok(3) by (simp_all add: appended_def)
  from w nr have "With test_rt 0 [Some ((#) 3)] test_heap = Inr (1, s1)" by simp
  with run fin test_heap_ok(1,2) show ?thesis by blast
qed



text \<open>
  C4: the context that \<open>Route\<close> derives has the prefix \<open>pattern c @ p\<close>, the plain
  concatenation, and keeps it; a route registered on it with the pattern \<open>q\<close> is
  installed under \<open>pattern c @ p @ q\<close> (after the method and a space, when there is a
  method). In the example, \<open>Route ''/v1''\<close> with \<open>Get ''/health''\<close> on a new router
  registers \<open>''GET /v1/health''\<close>.
\<close>

theorem C4_Route_prefix:
  assumes "heap_inv s" and "deref (contexts s) r = Some c" and "chain_of s r = map Some ms"
  shows "\<exists>nr s1. nr = length (contexts s) \<and>
           (\<forall>fn. Route rt r p (Some fn) s =
                   (case fn nr s1 of Inl e \<Rightarrow> Inl e | Inr s2 \<Rightarrow> Inr (nr, s2))) \<and>
           pattern (contexts s1 ! nr) = pattern c @ p \<and> muxes s1 = muxes s \<and>
           (\<forall>cs t. do_calls rt cs s1 = Inr t \<longrightarrow> pattern (contexts t ! nr) = pattern c @ p) \<and>
           (\<forall>method q h.
              Method rt nr method q h s1 =
                install rt s1 (ServeMux c)
                  ((if method = [] then [] else method @ '' '') @ pattern c @ p @ q)
                  (nested ms h)) \<and>
           (\<forall>q h.
              Route rt r p (Some (\<lambda>a. Get rt a q h)) s =
                (case install rt s1 (ServeMux c) (''GET '' @ pattern c @ p @ q) (nested ms h) of
                   Inl e \<Rightarrow> Inl e
                 | Inr s2 \<Rightarrow> Inr (nr, s2)))"
proof -
  let ?n = "length (contexts s)"
  from Route_id_props[OF assms(1,2), of rt p] obtain s1 where
    w: "Route rt r p (Some (\<lambda>_ t. Inr t)) s = Inr (?n, s1)" and len: "length (contexts s1) = Suc ?n" and
    pat: "pattern (contexts s1 ! ?n) = pattern c @ p" and
    mux: "ServeMux (contexts s1 ! ?n) = ServeMux c" and
    ch: "chain_of s1 ?n = chain_of s r" and m: "muxes s1 = muxes s" and inv1: "heap_inv s1"
    by blast
  have cb: "Route rt r p (Some fn) s = (case fn ?n s1 of Inl e \<Rightarrow> Inl e | Inr s2 \<Rightarrow> Inr (?n, s2))"
    for fn
    using Route_callback[of rt r p fn s] w by simp
  have lt: "?n < length (contexts s1)" using len by simp
  have later: "pattern (contexts t ! ?n) = pattern c @ p" if "do_calls rt cs s1 = Inr t" for cs t
    using do_calls_props[OF inv1 that] lt pat by simp
  have reg: "Method rt ?n verb q h s1 =
               install rt s1 (ServeMux c)
                 ((if verb = [] then [] else verb @ '' '') @ pattern c @ p @ q) (nested ms h)"
    for verb q h
    using Method_at[OF inv1 lt, of ms rt verb q h] ch assms(3) pat mux by simp
  have get: "Route rt r p (Some (\<lambda>a. Get rt a q h)) s =
               (case install rt s1 (ServeMux c) (''GET '' @ pattern c @ p @ q) (nested ms h) of
                  Inl e \<Rightarrow> Inl e
                | Inr s2 \<Rightarrow> Inr (?n, s2))"
    for q h
    using cb[of "\<lambda>a. Get rt a q h"] reg[of "''GET''" q h] by (simp add: verb_defs)
  from cb pat m later reg get show ?thesis
    by (intro exI[of _ ?n] exI[of _ s1]) blast
qed

theorem C4_witness:
  "heap_inv root_heap \<and>
   deref (contexts root_heap) 0 = Some \<lparr>pattern = [], ServeMux = 0, middlewares = nil\<rparr> \<and>
   chain_of root_heap 0 = map Some [] \<and>
   (\<exists>s2. Route test_rt 0 ''/v1'' (Some (\<lambda>a. Get test_rt a ''/health'' [0])) root_heap = Inr (1, s2) \<and>
      muxes s2 = [[(''GET /v1/health'', [0])]])"
proof -
  from C4_Route_prefix[OF root_heap_ok(1,2,3), of test_rt "''/v1''"]
  obtain nr s1 where nr: "nr = length (contexts root_heap)" and m: "muxes s1 = muxes root_heap" and
    get: "\<forall>q h. Route test_rt 0 ''/v1'' (Some (\<lambda>a. Get test_rt a q h)) root_heap =
            (case install test_rt s1 (ServeMux \<lparr>pattern = [], ServeMux = 0, middlewares = nil\<rparr>)
                    (''GET '' @ pattern \<lparr>pattern = [], ServeMux = 0, middlewares = nil\<rparr> @ ''/v1'' @ q)
                    (nested [] h) of
               Inl e \<Rightarrow> Inl e
             | Inr s2 \<Rightarrow> Inr (nr, s2))"
    by blast
  have n: "length (contexts root_heap) = 1"
    using root_heap_ok(2) by (simp add: root_heap_def NewRouter_def new_routerContext_def empty_heap_def Let_def)
  from get[rule_format, of "''/health''" "[0]"] m root_heap_ok(4) n nr
  have "\<exists>s2. Route test_rt 0 ''/v1'' (Some (\<lambda>a. Get test_rt a ''/health'' [0])) root_heap = Inr (1, s2) \<and>
      muxes s2 = [[(''GET /v1/health'', [0])]]"
    by (simp add: install_def deref_def test_rt_def)
  with root_heap_ok(1,2,3) show ?thesis by blast
qed

text \<open>
  C5: \<open>Method\<close> installs the composed handler under the key made of the method, one
  space and the context's prefix followed by the pattern when the method is not empty, and
  under the prefix followed by the pattern alone when the method is the empty string.
\<close>

theorem C5_route_key:
  assumes "heap_inv s" and "deref (contexts s) r = Some c" and "chain_of s r = map Some ms"
  shows "(method \<noteq> [] \<longrightarrow>
            Method rt r method pat h s =
              install rt s (ServeMux c) (method @ '' '' @ pattern c @ pat) (nested ms h)) \<and>
         Method rt r [] pat h s = install rt s (ServeMux c) (pattern c @ pat) (nested ms h)"
  using Method_install[OF assms(2) heap_inv_slice[OF assms(1,2)] assms(3), of rt "method" pat h]
    Method_install[OF assms(2) heap_inv_slice[OF assms(1,2)] assms(3), of rt "[]" pat h]
  by simp

theorem C5_witness:
  "heap_inv test_heap \<and> deref (contexts test_heap) 0 = Some test_ctx \<and>
   chain_of test_heap 0 = map Some [(#) 1, (#) 2] \<and> ''PUT'' \<noteq> [] \<and>
   Method test_rt 0 ''PUT'' ''/a'' [0] test_heap =
     Inr (test_heap\<lparr>muxes := [[(''PUT /api/a'', [1, 2, 0])]]\<rparr>) \<and>
   Method test_rt 0 [] ''/a'' [0] test_heap =
     Inr (test_heap\<lparr>muxes := [[(''/api/a'', [1, 2, 0])]]\<rparr>)"
  using C5_route_key[OF test_heap_ok, of "''PUT''" test_rt "''/a''" "[0]"] test_heap_ok
  by (simp add: install_def deref_def test_rt_def test_heap_def test_ctx_def)

text \<open>
  C6: \<open>Use\<close> appends the given middlewares, in the order of the arguments, to the chain
  of its receiver, which stays the same object with the same prefix and mux. No mux changes,
  so every handler installed before the call is what it was; no other context and no other
  chain changes; and a route registered on the receiver after the call is composed from the
  extended chain.
\<close>

theorem C6_Use_forward_only:
  assumes "heap_inv s" and "deref (contexts s) r = Some c"
  shows "\<exists>s'. Use rt r mws s = Inr s' \<and> chain_of s' r = chain_of s r @ mws \<and>
           muxes s' = muxes s \<and> length (contexts s') = length (contexts s) \<and>
           pattern (contexts s' ! r) = pattern c \<and> ServeMux (contexts s' ! r) = ServeMux c \<and>
           (\<forall>q. q \<noteq> r \<longrightarrow> contexts s' ! q = contexts s ! q \<and> chain_of s' q = chain_of s q) \<and>
           (\<forall>ms verb pat h. chain_of s r @ mws = map Some ms \<longrightarrow>
              Method rt r verb pat h s' =
                install rt s' (ServeMux c)
                  ((if verb = [] then [] else verb @ '' '') @ pattern c @ pat) (nested ms h))"
proof -
  from Use_props[OF assms, of rt mws] obtain s' where
    u: "Use rt r mws s = Inr s'" and ch: "chain_of s' r = chain_of s r @ mws" and
    m: "muxes s' = muxes s" and len: "length (contexts s') = length (contexts s)" and
    pat: "pattern (contexts s' ! r) = pattern c" and mux: "ServeMux (contexts s' ! r) = ServeMux c" and
    old: "\<forall>q. q \<noteq> r \<longrightarrow> contexts s' ! q = contexts s ! q \<and> chain_of s' q = chain_of s q" and
    inv': "heap_inv s'"
    by blast
  have lt: "r < length (contexts s')" using deref_lt[OF assms(2)] len by simp
  have "Method rt r verb p h s' =
          install rt s' (ServeMux c) ((if verb = [] then [] else verb @ '' '') @ pattern c @ p)
            (nested ms h)"
    if "chain_of s r @ mws = map Some ms" for ms verb p h
    using Method_at[OF inv' lt, of ms rt verb p h] that ch pat mux by simp
  with u ch m len pat mux old show ?thesis by blast
qed

theorem C6_witness:
  "heap_inv test_heap \<and> deref (contexts test_heap) 0 = Some test_ctx \<and>
   (\<exists>s'. Use test_rt 0 [Some ((#) 5)] test_heap = Inr s' \<and>
      chain_of s' 0 = [Some ((#) 1), Some ((#) 2), Some ((#) 5)] \<and> muxes s' = [[]] \<and>
      Method test_rt 0 ''GET'' ''/a'' [0] s' =
        install test_rt s' 0 ''GET /api/a'' [1, 2, 5, 0])"
proof -
  from C6_Use_forward_only[OF test_heap_ok(1,2), of test_rt "[Some ((#) 5)]"]
  obtain s' where u: "Use test_rt 0 [Some ((#) 5)] test_heap = Inr s'" and
    ch: "chain_of s' 0 = chain_of test_heap 0 @ [Some ((#) 5)]" and
    m: "muxes s' = muxes test_heap" and
    reg: "\<forall>ms verb pat h. chain_of test_heap 0 @ [Some ((#) 5)] = map Some ms \<longrightarrow>
              Method test_rt 0 verb pat h s' =
                install test_rt s' (ServeMux test_ctx)
                  ((if verb = [] then [] else verb @ '' '') @ pattern test_ctx @ pat) (nested ms h)"
    by blast
  have "chain_of test_heap 0 @ [Some ((#) 5)] = map Some [(#) 1, (#) 2, (#) 5]"
    by (simp add: test_heap_ok(3))
  from reg[rule_format, OF this, of "''GET''" "''/a''" "[0]"]
  have "Method test_rt 0 ''GET'' ''/a'' [0] s' = install test_rt s' 0 ''GET /api/a'' [1, 2, 5, 0]"
    by (simp add: test_ctx_def)
  moreover have "muxes s' = [[]]" using m by (simp add: test_heap_def)
  moreover have "chain_of s' 0 = [Some ((#) 1), Some ((#) 2), Some ((#) 5)]"
    using ch by (simp add: test_heap_ok(3))
  ultimately show ?thesis using u test_heap_ok(1,2) by blast
qed

text \<open>
  C7: deriving a context leaves every mux as it is: \<open>With\<close> returns with the muxes
  unchanged, and \<open>Group\<close> and \<open>Route\<close> hand their callback a heap with the muxes
  unchanged and return what the callback returns (so only what the callback registers
  changes a table). Neither does \<open>Use\<close> change a mux.
\<close>

theorem C7_derivation_keeps_table:
  assumes "deref (contexts s) r = Some c"
  shows "(\<exists>nr s'. With rt r mws s = Inr (nr, s') \<and> muxes s' = muxes s) \<and>
         (\<exists>nr s1. muxes s1 = muxes s \<and>
            (\<forall>fn. Group rt r (Some fn) s =
                    (case fn nr s1 of Inl e \<Rightarrow> Inl e | Inr s2 \<Rightarrow> Inr (nr, s2)))) \<and>
         (\<exists>nr s1. muxes s1 = muxes s \<and>
            (\<forall>fn. Route rt r pat (Some fn) s =
                    (case fn nr s1 of Inl e \<Rightarrow> Inl e | Inr s2 \<Rightarrow> Inr (nr, s2)))) \<and>
         (\<exists>s'. Use rt r mws s = Inr s' \<and> muxes s' = muxes s)"
proof (intro conjI)
  show "\<exists>nr s'. With rt r mws s = Inr (nr, s') \<and> muxes s' = muxes s"
    by (rule With_muxes[OF assms])
  show "\<exists>nr s1. muxes s1 = muxes s \<and>
            (\<forall>fn. Group rt r (Some fn) s =
                    (case fn nr s1 of Inl e \<Rightarrow> Inl e | Inr s2 \<Rightarrow> Inr (nr, s2)))"
    using Route_muxes[OF assms, of rt "[]"] by (simp add: Group_Route)
  show "\<exists>nr s1. muxes s1 = muxes s \<and>
            (\<forall>fn. Route rt r pat (Some fn) s =
                    (case fn nr s1 of Inl e \<Rightarrow> Inl e | Inr s2 \<Rightarrow> Inr (nr, s2)))"
    by (rule Route_muxes[OF assms])
  from Use_total[OF assms, of rt mws] obtain s' where u: "Use rt r mws s = Inr s'" by blast
  with Use_muxes[OF u] show "\<exists>s'. Use rt r mws s = Inr s' \<and> muxes s' = muxes s" by blast
qed

theorem C7_witness:
  "deref (contexts test_heap) 0 = Some test_ctx \<and>
   (\<exists>nr s'. With test_rt 0 [Some ((#) 3)] test_heap = Inr (nr, s') \<and> muxes s' = [[]]) \<and>
   (\<exists>nr s'. Group test_rt 0 (Some (\<lambda>_ t. Inr t)) test_heap = Inr (nr, s') \<and> muxes s' = [[]]) \<and>
   (\<exists>nr s'. Route test_rt 0 ''/v1'' (Some (\<lambda>_ t. Inr t)) test_heap = Inr (nr, s') \<and> muxes s' = [[]])"
proof -
  have m: "muxes test_heap = [[]]" by (simp add: test_heap_def)
  note C7 = C7_derivation_keeps_table[OF test_heap_ok(2), of test_rt "[Some ((#) 3)]" "''/v1''"]
  from C7 have w: "\<exists>nr s'. With test_rt 0 [Some ((#) 3)] test_heap = Inr (nr, s') \<and> muxes s' = [[]]"
    unfolding m by blast
  from C7 obtain g s1 where "muxes s1 = [[]]" and
    "\<forall>fn. Group test_rt 0 (Some fn) test_heap =
            (case fn g s1 of Inl e \<Rightarrow> Inl e | Inr s2 \<Rightarrow> Inr (g, s2))"
    unfolding m by blast
  then have "Group test_rt 0 (Some (\<lambda>_ t. Inr t)) test_heap = Inr (g, s1) \<and> muxes s1 = [[]]"
    by simp
  then have g: "\<exists>nr s'. Group test_rt 0 (Some (\<lambda>_ t. Inr t)) test_heap = Inr (nr, s') \<and> muxes s' = [[]]"
    by blast
  from C7 obtain g' s1' where "muxes s1' = [[]]" and
    "\<forall>fn. Route test_rt 0 ''/v1'' (Some fn) test_heap =
            (case fn g' s1' of Inl e \<Rightarrow> Inl e | Inr s2 \<Rightarrow> Inr (g', s2))"
    unfolding m by blast
  then have "Route test_rt 0 ''/v1'' (Some (\<lambda>_ t. Inr t)) test_heap = Inr (g', s1') \<and> muxes s1' = [[]]"
    by simp
  then have "\<exists>nr s'. Route test_rt 0 ''/v1'' (Some (\<lambda>_ t. Inr t)) test_heap = Inr (nr, s') \<and> muxes s' = [[]]"
    by blast
  with w g test_heap_ok(2) show ?thesis by blast
qed



text \<open>
  C9: \<open>MethodFunc\<close> is \<open>Method\<close>, and each verb helper is \<open>MethodFunc\<close> with the
  verb's name.
\<close>

theorem C9_overloads:
  "MethodFunc rt r m p h s = Method rt r m p h s \<and>
   Connect rt r p h s = MethodFunc rt r ''CONNECT'' p h s \<and>
   Delete rt r p h s = MethodFunc rt r ''DELETE'' p h s \<and>
   Get rt r p h s = MethodFunc rt r ''GET'' p h s \<and>
   Head rt r p h s = MethodFunc rt r ''HEAD'' p h s \<and>
   Options rt r p h s = MethodFunc rt r ''OPTIONS'' p h s \<and>
   Patch rt r p h s = MethodFunc rt r ''PATCH'' p h s \<and>
   Post rt r p h s = MethodFunc rt r ''POST'' p h s \<and>
   Put rt r p h s = MethodFunc rt r ''PUT'' p h s \<and>
   Trace rt r p h s = MethodFunc rt r ''TRACE'' p h s"
  by (simp add: Connect_def Delete_def Get_def Head_def Options_def Patch_def Post_def
        Put_def Trace_def MethodFunc_def MethodConnect_def MethodDelete_def MethodGet_def
        MethodHead_def MethodOptions_def MethodPatch_def MethodPost_def MethodPut_def
        MethodTrace_def)

text \<open>
  C10: a registration that returns (\<open>Method\<close>, \<open>MethodFunc\<close> or a verb helper) leaves
  all contexts and all backing arrays as they were, so the receiver's prefix and chain are
  unchanged; the heap after it is the heap before it with the receiver's mux replaced by the
  result of one \<open>Handle\<close>.
\<close>

theorem C10_registration_frame:
  assumes "reg \<in> {Method rt r m p h, MethodFunc rt r m p h, Connect rt r p h, Delete rt r p h,
                   Get rt r p h, Head rt r p h, Options rt r p h, Patch rt r p h, Post rt r p h,
                   Put rt r p h, Trace rt r p h}"
    and "reg s = Inr s'"
  shows "contexts s' = contexts s \<and> arrays s' = arrays s \<and>
         deref (contexts s') r = deref (contexts s) r \<and> chain_of s' r = chain_of s r \<and>
         (\<exists>c mux mux' key h'.
            deref (contexts s) r = Some c \<and> deref (muxes s) (ServeMux c) = Some mux \<and>
            Handle rt mux key h' = Some mux' \<and>
            s' = s\<lparr>muxes := (muxes s)[ServeMux c := mux']\<rparr>)"
proof -
  from assms have "\<exists>v. Method rt r v p h s = Inr s'"
    by (auto simp: verb_defs MethodFunc_def)
  then obtain v where M: "Method rt r v p h s = Inr s'" by blast
  note fr = Method_frame[OF M]
  from fr(3) obtain c mux mux' h' where
    c: "deref (contexts s) r = Some c" and mux: "deref (muxes s) (ServeMux c) = Some mux" and
    H: "Handle rt mux ((if v = [] then [] else v @ '' '') @ pattern c @ p) h' = Some mux'" and
    s': "s' = s\<lparr>muxes := (muxes s)[ServeMux c := mux']\<rparr>"
    by blast
  from c mux H s' have
    "\<exists>c mux mux' key h'.
        deref (contexts s) r = Some c \<and> deref (muxes s) (ServeMux c) = Some mux \<and>
        Handle rt mux key h' = Some mux' \<and>
        s' = s\<lparr>muxes := (muxes s)[ServeMux c := mux']\<rparr>"
    by blast
  with fr(1,2) chain_of_cong[OF fr(1,2), of r] show ?thesis
    by simp
qed

theorem C10_witness:
  "Get test_rt 0 ''/a'' [0] \<in>
     {Method test_rt 0 ''X'' ''/a'' [0], MethodFunc test_rt 0 ''X'' ''/a'' [0],
      Connect test_rt 0 ''/a'' [0], Delete test_rt 0 ''/a'' [0], Get test_rt 0 ''/a'' [0],
      Head test_rt 0 ''/a'' [0], Options test_rt 0 ''/a'' [0], Patch test_rt 0 ''/a'' [0],
      Post test_rt 0 ''/a'' [0], Put test_rt 0 ''/a'' [0], Trace test_rt 0 ''/a'' [0]} \<and>
   Get test_rt 0 ''/a'' [0] test_heap =
     Inr (test_heap\<lparr>muxes := [[(''GET /api/a'', [1, 2, 0])]]\<rparr>) \<and>
   contexts (test_heap\<lparr>muxes := [[(''GET /api/a'', [1, 2, 0])]]\<rparr>) = contexts test_heap \<and>
   chain_of (test_heap\<lparr>muxes := [[(''GET /api/a'', [1, 2, 0])]]\<rparr>) 0 = chain_of test_heap 0"
proof -
  have mem: "Get test_rt 0 ''/a'' [0] \<in>
     {Method test_rt 0 ''X'' ''/a'' [0], MethodFunc test_rt 0 ''X'' ''/a'' [0],
      Connect test_rt 0 ''/a'' [0], Delete test_rt 0 ''/a'' [0], Get test_rt 0 ''/a'' [0],
      Head test_rt 0 ''/a'' [0], Options test_rt 0 ''/a'' [0], Patch test_rt 0 ''/a'' [0],
      Post test_rt 0 ''/a'' [0], Put test_rt 0 ''/a'' [0], Trace test_rt 0 ''/a'' [0]}"
    by simp
  have run: "Get test_rt 0 ''/a'' [0] test_heap =
     Inr (test_heap\<lparr>muxes := [[(''GET /api/a'', [1, 2, 0])]]\<rparr>)"
    using Method_install[OF test_heap_ok(2) heap_inv_slice[OF test_heap_ok(1,2)] test_heap_ok(3),
        of test_rt "''GET''" "''/a''" "[0]"]
    by (simp add: verb_defs install_def deref_def test_rt_def test_heap_def test_ctx_def)
  from C10_registration_frame[OF mem run] mem run show ?thesis by simp
qed


end
